theory Spec2Isabelle
  imports Complex_Main "HOL-Library.Multiset"
begin

section \<open>The point-region quadtree of package quadtree\<close>

text \<open>
  The Go package computes with \<open>float64\<close> coordinates. The model holds a coordinate
  as the real number that the \<open>float64\<close> value denotes, and every sum, difference and
  quotient of the code is rounded to \<open>float64\<close> as the machine rounds it (to the
  nearest value, ties to the even mantissa). NaN and the infinities are not values
  of the model, and a result beyond the largest finite \<open>float64\<close>, which Go turns
  into an infinity, is rounded as if the exponent had no upper bound. The payload
  \<open>Data interface{}\<close> is a type parameter compared with HOL equality, which is Go's
  \<open>==\<close> on payloads of a comparable dynamic type (Go panics on the others). Points
  are held by pointer in Go and never written by the package, so the model holds
  them by value. The per-node mutex is not modelled: every operation runs alone,
  from its entry to its return.
\<close>

subsection \<open>Arithmetic of \<open>float64\<close>\<close>

text \<open>
  \<open>roundEven\<close> rounds a real to the nearest integer, a tie to the even one.
  \<open>ulp64 x\<close> is the distance between neighbouring \<open>float64\<close> values at the binary
  exponent of \<open>x\<close>: the mantissa has 52 fraction bits, and below 2 to the power -1022 the
  spacing stays that of the subnormal numbers. \<open>round64\<close> is the \<open>float64\<close> value
  nearest to a real; \<open>fadd\<close>, \<open>fsub\<close> and \<open>fdiv\<close> are Go's \<open>+\<close>, \<open>-\<close> and \<open>/\<close>.
\<close>

definition roundEven :: "real \<Rightarrow> int" where
  "roundEven r =
     (let f = \<lfloor>r\<rfloor>; d = r - of_int f
      in if d < 1 / 2 then f
         else if 1 / 2 < d then f + 1
         else if even f then f else f + 1)"

definition ulp64 :: "real \<Rightarrow> real" where
  "ulp64 x = 2 powr (of_int (max \<lfloor>log 2 \<bar>x\<bar>\<rfloor> (- 1022)) - 52)"

definition round64 :: "real \<Rightarrow> real" where
  "round64 x = (if x = 0 then 0 else of_int (roundEven (x / ulp64 x)) * ulp64 x)"

definition fadd :: "real \<Rightarrow> real \<Rightarrow> real" where
  "fadd x y = round64 (x + y)"

definition fsub :: "real \<Rightarrow> real \<Rightarrow> real" where
  "fsub x y = round64 (x - y)"

definition fdiv :: "real \<Rightarrow> real \<Rightarrow> real" where
  "fdiv x y = round64 (x / y)"

subsection \<open>Data\<close>

record 'd Point =
  X :: real
  Y :: real
  Data :: 'd

record Boundary =
  X :: real
  Y :: real
  Width :: real
  Height :: real

text \<open>
  A node of the Go struct has four child pointers that are \<open>nil\<close> together (a leaf)
  or set together by \<open>subdivide\<close> (a parent); the code tests \<open>northWest\<close> only.
  \<open>Leaf\<close> is a node whose \<open>northWest\<close> is \<open>nil\<close>, \<open>Internal\<close> one whose four
  children are present. Both carry the bucket \<open>points\<close>.
\<close>

datatype 'd QuadTree =
  Leaf (boundary: Boundary) (capacity: int) (points: "'d Point list")
| Internal (boundary: Boundary) (capacity: int) (points: "'d Point list")
    (northWest: "'d QuadTree") (northEast: "'d QuadTree")
    (southWest: "'d QuadTree") (southEast: "'d QuadTree")

subsection \<open>Construction and geometry\<close>

definition NewQuadTree :: "Boundary \<Rightarrow> int \<Rightarrow> 'd QuadTree" where
  "NewQuadTree b cap = Leaf b (if cap < 1 then 1 else cap) []"

definition Contains :: "Boundary \<Rightarrow> 'd Point \<Rightarrow> bool" where
  "Contains b p \<longleftrightarrow>
     Point.X p \<ge> fsub (Boundary.X b) (Width b) \<and>
     Point.X p < fadd (Boundary.X b) (Width b) \<and>
     Point.Y p \<ge> fsub (Boundary.Y b) (Height b) \<and>
     Point.Y p < fadd (Boundary.Y b) (Height b)"

definition Intersects :: "Boundary \<Rightarrow> Boundary \<Rightarrow> bool" where
  "Intersects b other =
     (let bMinX = fsub (Boundary.X b) (Width b);
          bMaxX = fadd (Boundary.X b) (Width b);
          bMinY = fsub (Boundary.Y b) (Height b);
          bMaxY = fadd (Boundary.Y b) (Height b);
          otherMinX = fsub (Boundary.X other) (Width other);
          otherMaxX = fadd (Boundary.X other) (Width other);
          otherMinY = fsub (Boundary.Y other) (Height other);
          otherMaxY = fadd (Boundary.Y other) (Height other)
      in if bMinX \<ge> otherMaxX then False
         else if bMaxX \<le> otherMinX then False
         else if bMinY \<ge> otherMaxY then False
         else if bMaxY \<le> otherMinY then False
         else True)"

text \<open>
  The four child rectangles that \<open>subdivide\<close> computes, in the order NW, NE, SW, SE:
  \<open>childWidth\<close> and \<open>childHeight\<close> are the rounded halves of the parent's extents, and
  each centre is the rounded sum or difference of the parent's centre and a half.
\<close>

definition nwBoundary :: "Boundary \<Rightarrow> Boundary" where
  "nwBoundary b =
     (let childWidth = fdiv (Width b) 2; childHeight = fdiv (Height b) 2;
          centerX = Boundary.X b; centerY = Boundary.Y b
      in \<lparr>X = fsub centerX childWidth, Y = fadd centerY childHeight,
          Width = childWidth, Height = childHeight\<rparr>)"

definition neBoundary :: "Boundary \<Rightarrow> Boundary" where
  "neBoundary b =
     (let childWidth = fdiv (Width b) 2; childHeight = fdiv (Height b) 2;
          centerX = Boundary.X b; centerY = Boundary.Y b
      in \<lparr>X = fadd centerX childWidth, Y = fadd centerY childHeight,
          Width = childWidth, Height = childHeight\<rparr>)"

definition swBoundary :: "Boundary \<Rightarrow> Boundary" where
  "swBoundary b =
     (let childWidth = fdiv (Width b) 2; childHeight = fdiv (Height b) 2;
          centerX = Boundary.X b; centerY = Boundary.Y b
      in \<lparr>X = fsub centerX childWidth, Y = fsub centerY childHeight,
          Width = childWidth, Height = childHeight\<rparr>)"

definition seBoundary :: "Boundary \<Rightarrow> Boundary" where
  "seBoundary b =
     (let childWidth = fdiv (Width b) 2; childHeight = fdiv (Height b) 2;
          centerX = Boundary.X b; centerY = Boundary.Y b
      in \<lparr>X = fadd centerX childWidth, Y = fsub centerY childHeight,
          Width = childWidth, Height = childHeight\<rparr>)"

text \<open>\<open>subdivide\<close> assigns the four child pointers and leaves the bucket as it is.\<close>

definition subdivide :: "'d QuadTree \<Rightarrow> 'd QuadTree" where
  "subdivide qt =
     Internal (boundary qt) (capacity qt) (points qt)
       (NewQuadTree (nwBoundary (boundary qt)) (capacity qt))
       (NewQuadTree (neBoundary (boundary qt)) (capacity qt))
       (NewQuadTree (swBoundary (boundary qt)) (capacity qt))
       (NewQuadTree (seBoundary (boundary qt)) (capacity qt))"

subsection \<open>Insert\<close>

text \<open>
  \<open>Insert\<close> calls itself on the children, and again from the redistribution loop on
  children it has just created; the code sets no bound on the depth. The model
  counts the depth of the calls with fuel: \<open>None\<close> says that the call did not return
  within the fuel.

  \<open>insertChildren ins p qt\<close> is the sequence \<open>qt.northWest.Insert(p)\<close>,
  \<open>qt.northEast.Insert(p)\<close>, \<open>qt.southWest.Insert(p)\<close>, \<open>qt.southEast.Insert(p)\<close>
  that stops at the first call returning true; the code writes it out twice, for a
  parent node and inside the redistribution loop. \<open>ins\<close> is the recursive call.
  On a node without children the first call is through a \<open>nil\<close> pointer, which panics
  in Go: no result.
\<close>

fun insertChildren ::
  "('d Point \<Rightarrow> 'd QuadTree \<Rightarrow> (bool \<times> 'd QuadTree) option) \<Rightarrow>
   'd Point \<Rightarrow> 'd QuadTree \<Rightarrow> (bool \<times> 'd QuadTree) option" where
  "insertChildren ins p (Leaf b cap ps) = None"
| "insertChildren ins p (Internal b cap ps nw ne sw se) =
     (case ins p nw of None \<Rightarrow> None
      | Some (r1, nw') \<Rightarrow>
        if r1 then Some (True, Internal b cap ps nw' ne sw se)
        else (case ins p ne of None \<Rightarrow> None
      | Some (r2, ne') \<Rightarrow>
        if r2 then Some (True, Internal b cap ps nw' ne' sw se)
        else (case ins p sw of None \<Rightarrow> None
      | Some (r3, sw') \<Rightarrow>
        if r3 then Some (True, Internal b cap ps nw' ne' sw' se)
        else (case ins p se of None \<Rightarrow> None
      | Some (r4, se') \<Rightarrow>
        if r4 then Some (True, Internal b cap ps nw' ne' sw' se')
        else Some (False, Internal b cap ps nw' ne' sw' se')))))"

text \<open>The loop over \<open>oldPoints\<close>: each point is offered to the children, and the
  loop goes on to the next point whether a child took it or not.\<close>

fun redistribute ::
  "('d Point \<Rightarrow> 'd QuadTree \<Rightarrow> (bool \<times> 'd QuadTree) option) \<Rightarrow>
   'd Point list \<Rightarrow> 'd QuadTree \<Rightarrow> 'd QuadTree option" where
  "redistribute ins [] qt = Some qt"
| "redistribute ins (pt # oldPoints) qt =
     (case insertChildren ins pt qt of None \<Rightarrow> None
      | Some (r, qt') \<Rightarrow> redistribute ins oldPoints qt')"

fun setPoints :: "'d Point list \<Rightarrow> 'd QuadTree \<Rightarrow> 'd QuadTree" where
  "setPoints ps (Leaf b cap _) = Leaf b cap ps"
| "setPoints ps (Internal b cap _ nw ne sw se) = Internal b cap ps nw ne sw se"

primrec Insert :: "nat \<Rightarrow> 'd Point \<Rightarrow> 'd QuadTree \<Rightarrow> (bool \<times> 'd QuadTree) option" where
  "Insert 0 p qt = None"
| "Insert (Suc n) p qt =
     (if \<not> Contains (boundary qt) p then Some (False, qt)
      else case qt of
        Internal b cap ps nw ne sw se \<Rightarrow> insertChildren (Insert n) p qt
      | Leaf b cap ps \<Rightarrow>
          (let qt1 = setPoints (ps @ [p]) qt in
           if int (length (points qt1)) > capacity qt1 then
             (let qt2 = subdivide qt1;
                  oldPoints = points qt2;
                  qt3 = setPoints [] qt2
              in case redistribute (Insert n) oldPoints qt3 of
                   None \<Rightarrow> None
                 | Some qt4 \<Rightarrow> Some (True, qt4))
           else Some (True, qt1)))"

subsection \<open>Query\<close>

text \<open>
  \<open>queryRecursive\<close> takes the node and the accumulator \<open>found\<close> and returns both as
  the call leaves them, so that what the traversal does to the tree is part of its
  result. The loop over a leaf's bucket appends the points inside the range.
\<close>

fun scanBucket :: "Boundary \<Rightarrow> 'd Point list \<Rightarrow> 'd Point list \<Rightarrow> 'd Point list" where
  "scanBucket rangeRect [] found = found"
| "scanBucket rangeRect (p # ps) found =
     (if Contains rangeRect p then scanBucket rangeRect ps (found @ [p])
      else scanBucket rangeRect ps found)"

fun queryRecursive ::
  "Boundary \<Rightarrow> 'd QuadTree \<Rightarrow> 'd Point list \<Rightarrow> 'd QuadTree \<times> 'd Point list" where
  "queryRecursive rangeRect (Leaf b cap ps) found =
     (if \<not> Intersects b rangeRect then (Leaf b cap ps, found)
      else (Leaf b cap ps, scanBucket rangeRect ps found))"
| "queryRecursive rangeRect (Internal b cap ps nw ne sw se) found =
     (if \<not> Intersects b rangeRect then (Internal b cap ps nw ne sw se, found)
      else
        (case queryRecursive rangeRect nw found of (nw', found1) \<Rightarrow>
         case queryRecursive rangeRect ne found1 of (ne', found2) \<Rightarrow>
         case queryRecursive rangeRect sw found2 of (sw', found3) \<Rightarrow>
         case queryRecursive rangeRect se found3 of (se', found4) \<Rightarrow>
           (Internal b cap ps nw' ne' sw' se', found4)))"

definition Query :: "Boundary \<Rightarrow> 'd QuadTree \<Rightarrow> 'd QuadTree \<times> 'd Point list" where
  "Query rangeRect qt = queryRecursive rangeRect qt []"

subsection \<open>Remove\<close>

text \<open>The scan for the first bucket entry equal to \<open>p\<close> in payload and both
  coordinates; \<open>None\<close> is the code's \<open>foundIndex == -1\<close>.\<close>

fun findIndex :: "'d Point \<Rightarrow> 'd Point list \<Rightarrow> nat option" where
  "findIndex p [] = None"
| "findIndex p (pt # pts) =
     (if Data pt = Data p \<and> Point.X pt = Point.X p \<and> Point.Y pt = Point.Y p then Some 0
      else map_option Suc (findIndex p pts))"

fun Remove :: "'d Point \<Rightarrow> 'd QuadTree \<Rightarrow> bool \<times> 'd QuadTree" where
  "Remove p (Leaf b cap ps) =
     (if \<not> Contains b p then (False, Leaf b cap ps)
      else case findIndex p ps of
        None \<Rightarrow> (False, Leaf b cap ps)
      | Some foundIndex \<Rightarrow>
          (True, Leaf b cap (take (length ps - 1) (ps[foundIndex := ps ! (length ps - 1)]))))"
| "Remove p (Internal b cap ps nw ne sw se) =
     (if \<not> Contains b p then (False, Internal b cap ps nw ne sw se)
      else case Remove p nw of (r1, nw') \<Rightarrow>
        if r1 then (True, Internal b cap ps nw' ne sw se)
        else case Remove p ne of (r2, ne') \<Rightarrow>
        if r2 then (True, Internal b cap ps nw' ne' sw se)
        else case Remove p sw of (r3, sw') \<Rightarrow>
        if r3 then (True, Internal b cap ps nw' ne' sw' se)
        else case Remove p se of (r4, se') \<Rightarrow>
        if r4 then (True, Internal b cap ps nw' ne' sw' se')
        else (False, Internal b cap ps nw' ne' sw' se'))"

subsection \<open>What a tree holds, and the trees the operations build\<close>

text \<open>
  \<open>allPoints\<close> is the multiset of the points in all buckets of a tree,
  \<open>leafBoundaries\<close> the rectangles of its leaves. \<open>invar\<close> is the shape that
  \<open>NewQuadTree\<close>, \<open>Insert\<close> and \<open>Remove\<close> keep: a capacity of at least one; a
  leaf bucket within capacity whose points satisfy the leaf's \<open>Contains\<close>; a parent
  with an empty bucket, whose children have the rectangles of \<open>subdivide\<close> and the
  parent's capacity, and below which every stored point satisfies the parent's
  \<open>Contains\<close>. \<open>bucketsWithin c qt\<close>: every leaf bucket of \<open>qt\<close> has at most \<open>c\<close>
  points and every parent bucket is empty. \<open>reachable\<close> are the trees built from a
  new tree by calls of \<open>Insert\<close> that returned and calls of \<open>Remove\<close>, one after the
  other.
\<close>

fun allPoints :: "'d QuadTree \<Rightarrow> 'd Point multiset" where
  "allPoints (Leaf b cap ps) = mset ps"
| "allPoints (Internal b cap ps nw ne sw se) =
     mset ps + allPoints nw + allPoints ne + allPoints sw + allPoints se"


fun invar :: "'d QuadTree \<Rightarrow> bool" where
  "invar (Leaf b cap ps) \<longleftrightarrow>
     1 \<le> cap \<and> int (length ps) \<le> cap \<and> (\<forall>p \<in> set ps. Contains b p)"
| "invar (Internal b cap ps nw ne sw se) \<longleftrightarrow>
     1 \<le> cap \<and> ps = [] \<and>
     boundary nw = nwBoundary b \<and> boundary ne = neBoundary b \<and>
     boundary sw = swBoundary b \<and> boundary se = seBoundary b \<and>
     capacity nw = cap \<and> capacity ne = cap \<and> capacity sw = cap \<and> capacity se = cap \<and>
     invar nw \<and> invar ne \<and> invar sw \<and> invar se \<and>
     (\<forall>p. p \<in># allPoints nw + allPoints ne + allPoints sw + allPoints se \<longrightarrow> Contains b p)"

fun bucketsWithin :: "int \<Rightarrow> 'd QuadTree \<Rightarrow> bool" where
  "bucketsWithin c (Leaf b cap ps) \<longleftrightarrow> int (length ps) \<le> c"
| "bucketsWithin c (Internal b cap ps nw ne sw se) \<longleftrightarrow>
     ps = [] \<and> bucketsWithin c nw \<and> bucketsWithin c ne \<and>
     bucketsWithin c sw \<and> bucketsWithin c se"

inductive reachable :: "'d QuadTree \<Rightarrow> bool" where
  new: "reachable (NewQuadTree b cap)"
| ins: "reachable qt \<Longrightarrow> Insert n p qt = Some (r, qt') \<Longrightarrow> reachable qt'"
| rem: "reachable qt \<Longrightarrow> Remove p qt = (r, qt') \<Longrightarrow> reachable qt'"

text \<open>What a call of \<open>Insert\<close> on a tree of that shape does, as far as it holds for
  any rounding: a call that returns false leaves the tree as it is, a call that
  returns true was given a point inside the rectangle and adds no other point.\<close>

definition insert_spec ::
  "('d Point \<Rightarrow> 'd QuadTree \<Rightarrow> (bool \<times> 'd QuadTree) option) \<Rightarrow> bool" where
  "insert_spec ins \<longleftrightarrow>
     (\<forall>p qt r qt'. invar qt \<longrightarrow> ins p qt = Some (r, qt') \<longrightarrow>
        invar qt' \<and> boundary qt' = boundary qt \<and> capacity qt' = capacity qt \<and>
        (r \<longrightarrow> Contains (boundary qt) p) \<and> (\<not> r \<longrightarrow> qt' = qt) \<and>
        allPoints qt' \<subseteq># add_mset p (allPoints qt))"


subsection \<open>The scenario of the package's tests\<close>

text \<open>
  The world rectangle, the five points and the capacity of \<open>TestQuadTreeInsert\<close> and
  \<open>TestQuadTreeQuery\<close>, and the tree that the five insertions build. \<open>insertAll\<close>
  runs \<open>Insert\<close> on a list of points, each with the same fuel.
\<close>

fun insertAll :: "nat \<Rightarrow> 'd Point list \<Rightarrow> 'd QuadTree \<Rightarrow> 'd QuadTree option" where
  "insertAll n [] qt = Some qt"
| "insertAll n (p # ps) qt =
     (case Insert n p qt of None \<Rightarrow> None | Some (r, qt') \<Rightarrow> insertAll n ps qt')"

definition world :: Boundary where
  "world = \<lparr>X = 0, Y = 0, Width = 100, Height = 100\<rparr>"

definition p1 :: "string Point" where
  "p1 = \<lparr>Point.X = -50, Point.Y = 50, Data = ''p1 (NW)''\<rparr>"

definition p2 :: "string Point" where
  "p2 = \<lparr>Point.X = 50, Point.Y = 50, Data = ''p2 (NE)''\<rparr>"

definition p3 :: "string Point" where
  "p3 = \<lparr>Point.X = -50, Point.Y = -50, Data = ''p3 (SW)''\<rparr>"

definition p4 :: "string Point" where
  "p4 = \<lparr>Point.X = 50, Point.Y = -50, Data = ''p4 (SE)''\<rparr>"

definition p5 :: "string Point" where
  "p5 = \<lparr>Point.X = 60, Point.Y = 60, Data = ''p5 (NE, extra)''\<rparr>"

definition searchNE :: Boundary where
  "searchNE = \<lparr>X = 50, Y = 50, Width = 50, Height = 50\<rparr>"

definition tree5 :: "string QuadTree" where
  "tree5 = Internal world 2 []
     (Leaf (nwBoundary world) 2 [p1]) (Leaf (neBoundary world) 2 [p2, p5])
     (Leaf (swBoundary world) 2 [p3]) (Leaf (seBoundary world) 2 [p4])"

definition p6 :: "string Point" where
  "p6 = \<lparr>Point.X = 60, Point.Y = -60, Data = ''p6''\<rparr>"

definition edgePoint :: "string Point" where
  "edgePoint = \<lparr>Point.X = 100, Point.Y = 0, Data = ''edge''\<rparr>"

definition tree2 :: "string QuadTree" where
  "tree2 = Leaf world 2 [p1, p2]"

definition tree3 :: "string QuadTree" where
  "tree3 = Internal world 2 []
     (Leaf (nwBoundary world) 2 [p1]) (Leaf (neBoundary world) 2 [p2])
     (Leaf (swBoundary world) 2 [p3]) (Leaf (seBoundary world) 2 [])"

definition tree6 :: "string QuadTree" where
  "tree6 = Internal world 2 []
     (Leaf (nwBoundary world) 2 [p1]) (Leaf (neBoundary world) 2 [p2, p5])
     (Leaf (swBoundary world) 2 [p3]) (Leaf (seBoundary world) 2 [p4, p6])"

definition dupTree :: "string QuadTree" where
  "dupTree = Leaf world 2 [p1, p1]"

subsection \<open>A world where the integers that \<open>float64\<close> holds thin out\<close>

text \<open>
  A world centred at \<open>2 ^ 53 = 9007199254740992\<close> with half-extents 2. From
  \<open>2 ^ 53\<close> on the \<open>float64\<close> values are the even integers, so the centre
  \<open>2 ^ 53 + 1\<close> of the eastern children rounds to \<open>2 ^ 53\<close>. All coordinates
  below are \<open>float64\<close> values.
\<close>

definition bigWorld :: Boundary where
  "bigWorld = \<lparr>X = 9007199254740992, Y = 0, Width = 2, Height = 2\<rparr>"

definition gapA :: "string Point" where
  "gapA = \<lparr>Point.X = 9007199254740992, Point.Y = 1, Data = ''a''\<rparr>"

definition gapB :: "string Point" where
  "gapB = \<lparr>Point.X = 9007199254740992, Point.Y = -1, Data = ''b''\<rparr>"

definition lapA :: "string Point" where
  "lapA = \<lparr>Point.X = 9007199254740991, Point.Y = 1, Data = ''c''\<rparr>"

definition lapB :: "string Point" where
  "lapB = \<lparr>Point.X = 9007199254740991, Point.Y = -1, Data = ''d''\<rparr>"





section \<open>Properties\<close>

subsection \<open>Values that \<open>round64\<close> keeps, and the rounding from \<open>2 ^ 53\<close> on\<close>

lemma roundEven_of_int: "roundEven (of_int m) = m"
  by (simp add: roundEven_def)

lemma ulp64_eq:
  assumes "2 powr of_int e \<le> \<bar>x\<bar>" "\<bar>x\<bar> < 2 powr (of_int e + 1)" "- 1022 \<le> e"
  shows "ulp64 x = 2 powr (of_int e - 52)"
proof -
  from assms(1) have pos: "0 < \<bar>x\<bar>" by (smt (verit) powr_gt_zero)
  from assms(1,2) have "\<lfloor>log 2 \<bar>x\<bar>\<rfloor> = e"
    using floor_log_eq_powr_iff[OF pos, of 2 e] by simp
  with assms(3) show ?thesis by (simp add: ulp64_def)
qed

lemma round64_exact:
  assumes "2 powr of_int e \<le> \<bar>x\<bar>" "\<bar>x\<bar> < 2 powr (of_int e + 1)" "- 1022 \<le> e"
    and "x / 2 powr (of_int e - 52) = of_int m"
  shows "round64 x = x"
proof -
  from assms(1) have nz: "x \<noteq> 0" by (smt (verit) powr_gt_zero)
  have u: "ulp64 x = 2 powr (of_int e - 52)" by (rule ulp64_eq[OF assms(1-3)])
  have "round64 x = of_int m * 2 powr (of_int e - 52)"
    using nz u assms(4) by (simp add: round64_def roundEven_of_int)
  also have "\<dots> = x" using assms(4)[symmetric] by simp
  finally show ?thesis .
qed

lemma round64_0: "round64 0 = 0"
  by (simp add: round64_def)

lemma round64_int_small:
  assumes "\<bar>i\<bar> \<le> 2 ^ 53"
  shows "round64 (of_int i) = of_int i"
proof (cases "i = 0")
  case True
  thus ?thesis by (simp add: round64_0)
next
  case False
  let ?x = "of_int i :: real"
  from False have pos: "0 < \<bar>?x\<bar>" and ge1: "1 \<le> \<bar>?x\<bar>" by simp_all
  define e where "e = \<lfloor>log 2 \<bar>?x\<bar>\<rfloor>"
  from floor_log_eq_powr_iff[OF pos, of 2 e] e_def
  have b: "2 powr of_int e \<le> \<bar>?x\<bar>" "\<bar>?x\<bar> < 2 powr (of_int e + 1)" by simp_all
  from ge1 have "0 \<le> log 2 \<bar>?x\<bar>" by simp
  hence e0: "0 \<le> e" by (simp add: e_def)
  from assms have le: "\<bar>?x\<bar> \<le> 2 ^ 53"
    by (metis of_int_abs of_int_le_iff of_int_numeral of_int_power)
  hence "log 2 \<bar>?x\<bar> \<le> 53" using pos by (simp add: log_le_iff)
  hence e53: "e \<le> 53" by (simp add: e_def floor_le_iff)
  show ?thesis
  proof (cases "e \<le> 52")
    case True
    define k where "k = nat (52 - e)"
    have "?x / 2 powr (of_int e - 52) = ?x * 2 powr (of_int (52 - e))"
      by (simp add: powr_diff powr_minus field_simps)
    also have "2 powr (of_int (52 - e)) = 2 powr (real k)" using True by (simp add: k_def)
    also have "\<dots> = 2 ^ k" by (simp add: powr_realpow)
    finally have "?x / 2 powr (of_int e - 52) = of_int (i * 2 ^ k)" by simp
    from round64_exact[OF b _ this] e0 show ?thesis by simp
  next
    case False
    with e53 have e: "e = 53" by simp
    with b(1) le have "\<bar>?x\<bar> = 2 ^ 53" by simp
    hence "?x = 2 ^ 53 \<or> ?x = - (2 ^ 53)" by (simp add: abs_if split: if_splits)
    hence "?x / 2 powr (of_int e - 52) = of_int 4503599627370496 \<or>
           ?x / 2 powr (of_int e - 52) = of_int (- 4503599627370496)"
      using e by auto
    then obtain m :: int where "?x / 2 powr (of_int e - 52) = of_int m" by blast
    from round64_exact[OF b _ this] e0 show ?thesis by simp
  qed
qed

lemma round64_binade53:
  assumes "2 ^ 53 \<le> \<bar>x\<bar>" "\<bar>x\<bar> < 2 ^ 54"
  shows "round64 x = 2 * of_int (roundEven (x / 2))"
proof -
  from assms(1) have nz: "x \<noteq> 0" by auto
  have "ulp64 x = 2 powr (of_int 53 - 52)"
    by (rule ulp64_eq) (use assms in simp_all)
  hence "ulp64 x = 2" by simp
  with nz show ?thesis by (simp add: round64_def)
qed

lemma round64_numeral:
  "(numeral n :: int) \<le> 2 ^ 53 \<Longrightarrow> round64 (numeral n) = numeral n"
  "(numeral n :: int) \<le> 2 ^ 53 \<Longrightarrow> round64 (- numeral n) = - numeral n"
  "round64 1 = 1" "round64 (- 1) = - 1"
  using round64_int_small[of "numeral n"] round64_int_small[of "- numeral n"]
    round64_int_small[of 1] round64_int_small[of "- 1"]
  by simp_all

subsection \<open>Geometry of the rectangles\<close>

lemma Contains_Intersects:
  "Contains a p \<Longrightarrow> Contains b p \<Longrightarrow> Intersects a b"
  by (simp add: Contains_def Intersects_def Let_def)

lemma upper_edge_outside:
  "Point.X p = fadd (Boundary.X b) (Width b) \<or> Point.Y p = fadd (Boundary.Y b) (Height b)
     \<Longrightarrow> \<not> Contains b p"
  by (auto simp: Contains_def)

lemma exact_upper_edge_outside:
  assumes "round64 (Point.X p) = Point.X p \<and> Point.X p = Boundary.X b + Width b \<or>
           round64 (Point.Y p) = Point.Y p \<and> Point.Y p = Boundary.Y b + Height b"
  shows "\<not> Contains b p"
proof -
  from assms have "Point.X p = fadd (Boundary.X b) (Width b) \<or>
                   Point.Y p = fadd (Boundary.Y b) (Height b)"
    by (auto simp: fadd_def)
  thus ?thesis by (rule upper_edge_outside)
qed



lemma allPoints_in_boundary:
  "invar qt \<Longrightarrow> p \<in># allPoints qt \<Longrightarrow> Contains (boundary qt) p"
  by (cases qt) auto


subsection \<open>Insert keeps the shape and adds nothing but the new point\<close>

lemma insert_specD:
  assumes "insert_spec ins" "invar qt" "ins p qt = Some (r, qt')"
  shows "invar qt'" "boundary qt' = boundary qt" "capacity qt' = capacity qt"
    "r \<Longrightarrow> Contains (boundary qt) p" "\<not> r \<Longrightarrow> qt' = qt"
    "allPoints qt' \<subseteq># add_mset p (allPoints qt)"
  using assms unfolding insert_spec_def by blast+

lemma grown_points_inside:
  assumes "M' \<subseteq># add_mset p M" "Contains b p" "\<forall>q. q \<in># M \<longrightarrow> Contains b q" "q \<in># M'"
  shows "Contains b q"
proof -
  from mset_subset_eqD[OF assms(1,4)] have "q = p \<or> q \<in># M" by simp
  with assms(2,3) show ?thesis by blast
qed

lemma child_grows:
  assumes "M' \<subseteq># add_mset p M"
  shows "M' + B + C + D \<subseteq># add_mset p (M + B + C + D)"
    and "A + M' + C + D \<subseteq># add_mset p (A + M + C + D)"
    and "A + B + M' + D \<subseteq># add_mset p (A + B + M + D)"
    and "A + B + C + M' \<subseteq># add_mset p (A + B + C + M)"
proof -
  have c: "count M' a \<le> count (add_mset p M) a" for a
    by (rule mset_subset_eq_count[OF assms])
  show "M' + B + C + D \<subseteq># add_mset p (M + B + C + D)"
  proof (rule mset_subset_eqI)
    fix a
    from c[of a] show "count (M' + B + C + D) a \<le> count (add_mset p (M + B + C + D)) a"
      by (cases "p = a") simp_all
  qed
  show "A + M' + C + D \<subseteq># add_mset p (A + M + C + D)"
  proof (rule mset_subset_eqI)
    fix a
    from c[of a] show "count (A + M' + C + D) a \<le> count (add_mset p (A + M + C + D)) a"
      by (cases "p = a") simp_all
  qed
  show "A + B + M' + D \<subseteq># add_mset p (A + B + M + D)"
  proof (rule mset_subset_eqI)
    fix a
    from c[of a] show "count (A + B + M' + D) a \<le> count (add_mset p (A + B + M + D)) a"
      by (cases "p = a") simp_all
  qed
  show "A + B + C + M' \<subseteq># add_mset p (A + B + C + M)"
  proof (rule mset_subset_eqI)
    fix a
    from c[of a] show "count (A + B + C + M') a \<le> count (add_mset p (A + B + C + M)) a"
      by (cases "p = a") simp_all
  qed
qed

lemma insertChildren_spec:
  assumes spec: "insert_spec ins" and inv: "invar qt" and inside: "Contains (boundary qt) p"
    and run: "insertChildren ins p qt = Some (r, qt')"
  shows "invar qt' \<and> boundary qt' = boundary qt \<and> capacity qt' = capacity qt \<and>
         (\<not> r \<longrightarrow> qt' = qt) \<and> allPoints qt' \<subseteq># add_mset p (allPoints qt)"
proof (cases qt)
  case (Leaf b cap ps)
  with run show ?thesis by simp
next
  case (Internal b cap ps nw ne sw se)
  note I = Internal
  from inv I have inw: "invar nw" and ine: "invar ne" and isw: "invar sw" and ise: "invar se"
    and bs: "boundary nw = nwBoundary b" "boundary ne = neBoundary b"
            "boundary sw = swBoundary b" "boundary se = seBoundary b"
    and cs: "capacity nw = cap" "capacity ne = cap" "capacity sw = cap" "capacity se = cap"
    and rest: "1 \<le> cap" "ps = []"
    and old: "\<forall>q. q \<in># allPoints nw + allPoints ne + allPoints sw + allPoints se \<longrightarrow> Contains b q"
    by simp_all
  from inside I have inb: "Contains b p" by simp
  let ?old = "allPoints nw + allPoints ne + allPoints sw + allPoints se"
  have grown: "invar (Internal b cap ps nw1 ne1 sw1 se1) \<and>
               allPoints (Internal b cap ps nw1 ne1 sw1 se1) \<subseteq># add_mset p (allPoints qt)"
    if "invar nw1" "invar ne1" "invar sw1" "invar se1"
      "boundary nw1 = nwBoundary b" "boundary ne1 = neBoundary b"
      "boundary sw1 = swBoundary b" "boundary se1 = seBoundary b"
      "capacity nw1 = cap" "capacity ne1 = cap" "capacity sw1 = cap" "capacity se1 = cap"
      "allPoints nw1 + allPoints ne1 + allPoints sw1 + allPoints se1 \<subseteq># add_mset p ?old"
    for nw1 ne1 sw1 se1
  proof -
    from grown_points_inside[OF that(13) inb old]
    have "\<forall>q. q \<in># allPoints nw1 + allPoints ne1 + allPoints sw1 + allPoints se1 \<longrightarrow>
            Contains b q" by blast
    with that rest I show ?thesis by simp
  qed
  from run I obtain r1 nw' where c1: "ins p nw = Some (r1, nw')"
    by (auto split: option.splits)
  note s1 = insert_specD[OF spec inw c1]
  show ?thesis
  proof (cases r1)
    case True
    with c1 run I have res: "r" "qt' = Internal b cap ps nw' ne sw se" by auto
    note child_grows(1)[OF s1(6), of "allPoints ne" "allPoints sw" "allPoints se"]
    from grown[OF s1(1) ine isw ise _ bs(2-4) _ cs(2-4) this] s1(2,3) bs(1) cs(1) res I
    show ?thesis by simp
  next
    case False
    with s1(5) have u1: "nw' = nw" by simp
    from run I c1 False obtain r2 ne' where c2: "ins p ne = Some (r2, ne')"
      by (auto split: option.splits)
    note s2 = insert_specD[OF spec ine c2]
    show ?thesis
    proof (cases r2)
      case True
      with c1 c2 \<open>\<not> r1\<close> run I u1 have res: "r" "qt' = Internal b cap ps nw ne' sw se" by auto
      note child_grows(2)[OF s2(6), of "allPoints nw" "allPoints sw" "allPoints se"]
      from grown[OF inw s2(1) isw ise bs(1) _ bs(3,4) cs(1) _ cs(3,4) this] s2(2,3) bs(2) cs(2) res I
      show ?thesis by simp
    next
      case False
      with s2(5) have u2: "ne' = ne" by simp
      from run I c1 c2 \<open>\<not> r1\<close> False obtain r3 sw' where c3: "ins p sw = Some (r3, sw')"
        by (auto split: option.splits)
      note s3 = insert_specD[OF spec isw c3]
      show ?thesis
      proof (cases r3)
        case True
        with c1 c2 c3 \<open>\<not> r1\<close> \<open>\<not> r2\<close> run I u1 u2
        have res: "r" "qt' = Internal b cap ps nw ne sw' se" by auto
        note child_grows(3)[OF s3(6), of "allPoints nw" "allPoints ne" "allPoints se"]
        from grown[OF inw ine s3(1) ise bs(1,2) _ bs(4) cs(1,2) _ cs(4) this] s3(2,3) bs(3) cs(3) res I
        show ?thesis by simp
      next
        case False
        with s3(5) have u3: "sw' = sw" by simp
        from run I c1 c2 c3 \<open>\<not> r1\<close> \<open>\<not> r2\<close> False obtain r4 se' where c4: "ins p se = Some (r4, se')"
          by (auto split: option.splits)
        note s4 = insert_specD[OF spec ise c4]
        show ?thesis
        proof (cases r4)
          case True
          with c1 c2 c3 c4 \<open>\<not> r1\<close> \<open>\<not> r2\<close> \<open>\<not> r3\<close> run I u1 u2 u3
          have res: "r" "qt' = Internal b cap ps nw ne sw se'" by auto
          note child_grows(4)[OF s4(6), of "allPoints nw" "allPoints ne" "allPoints sw"]
          from grown[OF inw ine isw s4(1) bs(1-3) _ cs(1-3) _ this] s4(2,3) bs(4) cs(4) res I
          show ?thesis by simp
        next
          case False
          with s4(5) have u4: "se' = se" by simp
          from c1 c2 c3 c4 \<open>\<not> r1\<close> \<open>\<not> r2\<close> \<open>\<not> r3\<close> False run I u1 u2 u3 u4
          have "\<not> r" "qt' = qt" by auto
          with inv show ?thesis by simp
        qed
      qed
    qed
  qed
qed

lemma redistribute_spec:
  assumes "insert_spec ins"
  shows "invar qt \<Longrightarrow> \<forall>p \<in> set pts. Contains (boundary qt) p \<Longrightarrow>
         redistribute ins pts qt = Some qt' \<Longrightarrow>
         invar qt' \<and> boundary qt' = boundary qt \<and> capacity qt' = capacity qt \<and>
         allPoints qt' \<subseteq># allPoints qt + mset pts"
proof (induction pts arbitrary: qt)
  case Nil
  then show ?case by simp
next
  case (Cons pt pts)
  from Cons.prems(3) obtain r qt1 where
    step: "insertChildren ins pt qt = Some (r, qt1)" and
    more: "redistribute ins pts qt1 = Some qt'"
    by (auto split: option.splits)
  from Cons.prems(2) have "Contains (boundary qt) pt" by simp
  from insertChildren_spec[OF assms Cons.prems(1) this step]
  have s: "invar qt1" "boundary qt1 = boundary qt" "capacity qt1 = capacity qt"
    "allPoints qt1 \<subseteq># add_mset pt (allPoints qt)" by simp_all
  from Cons.prems(2) s(2) have "\<forall>p \<in> set pts. Contains (boundary qt1) p" by simp
  from Cons.IH[OF s(1) this more]
  have t: "invar qt'" "boundary qt' = boundary qt1" "capacity qt' = capacity qt1"
    "allPoints qt' \<subseteq># allPoints qt1 + mset pts" by simp_all
  from s(4) have "allPoints qt1 + mset pts \<subseteq># add_mset pt (allPoints qt) + mset pts"
    by (rule subset_mset.add_right_mono)
  with t(4) have "allPoints qt' \<subseteq># allPoints qt + mset (pt # pts)"
    by (simp add: subset_mset.order_trans)
  with t s show ?case by simp
qed

lemma Insert_spec: "insert_spec (Insert n)"
proof (induction n)
  case 0
  show ?case by (simp add: insert_spec_def)
next
  case (Suc n)
  show ?case unfolding insert_spec_def
  proof (intro allI impI)
    fix p :: "'a Point" and qt r qt'
    assume inv: "invar qt" and run: "Insert (Suc n) p qt = Some (r, qt')"
    let ?goal = "invar qt' \<and> boundary qt' = boundary qt \<and> capacity qt' = capacity qt \<and>
        (r \<longrightarrow> Contains (boundary qt) p) \<and> (\<not> r \<longrightarrow> qt' = qt) \<and>
        allPoints qt' \<subseteq># add_mset p (allPoints qt)"
    show ?goal
    proof (cases "Contains (boundary qt) p")
      case False
      with run inv show ?thesis by simp
    next
      case inside: True
      show ?thesis
      proof (cases qt)
        case (Internal b cap ps nw ne sw se)
        with run inside have "insertChildren (Insert n) p qt = Some (r, qt')" by simp
        from insertChildren_spec[OF Suc inv inside this] inside show ?thesis by simp
      next
        case (Leaf b cap ps)
        from inv Leaf have cap: "1 \<le> cap" and len: "int (length ps) \<le> cap"
          and old: "\<forall>q \<in> set ps. Contains b q" by simp_all
        from inside Leaf have inb: "Contains b p" by simp
        show ?thesis
        proof (cases "int (length (ps @ [p])) > cap")
          case False
          with run Leaf inside have "r" "qt' = Leaf b cap (ps @ [p])" by (auto simp: Let_def)
          with False cap old inb Leaf show ?thesis by simp
        next
          case True
          let ?qt3 = "Internal b cap [] (Leaf (nwBoundary b) cap []) (Leaf (neBoundary b) cap [])
                        (Leaf (swBoundary b) cap []) (Leaf (seBoundary b) cap [])"
          from cap have q3: "setPoints [] (subdivide (Leaf b cap (ps @ [p]))) = ?qt3"
            by (simp add: subdivide_def NewQuadTree_def)
          have op: "points (subdivide (Leaf b cap (ps @ [p]))) = ps @ [p]"
            by (simp add: subdivide_def)
          from run Leaf inside True obtain qt4 where
            red: "redistribute (Insert n) (ps @ [p]) ?qt3 = Some qt4" and res: "r" "qt' = qt4"
            using q3 op by (auto simp: Let_def split: option.splits)
          have i3: "invar ?qt3" using cap by simp
          have all: "\<forall>q \<in> set (ps @ [p]). Contains (boundary ?qt3) q" using old inb by simp
          from redistribute_spec[OF Suc i3 all red] res inb Leaf show ?thesis by simp
        qed
      qed
    qed
  qed
qed

lemma Insert_result:
  assumes "invar qt" "Insert n p qt = Some (r, qt')"
  shows "invar qt'" "boundary qt' = boundary qt" "capacity qt' = capacity qt"
    "r \<Longrightarrow> Contains (boundary qt) p" "\<not> r \<Longrightarrow> qt' = qt"
    "allPoints qt' \<subseteq># add_mset p (allPoints qt)"
  using insert_specD[OF Insert_spec assms] by blast+

subsection \<open>Remove takes out one equal entry\<close>

lemma point_eq_iff:
  "(pt :: 'd Point) = p \<longleftrightarrow> Data pt = Data p \<and> Point.X pt = Point.X p \<and> Point.Y pt = Point.Y p"
  by auto

lemma findIndex_None: "findIndex p ps = None \<longleftrightarrow> p \<notin> set ps"
  by (induction ps) (auto simp: point_eq_iff)

lemma findIndex_Some:
  "findIndex p ps = Some i \<Longrightarrow> i < length ps \<and> ps ! i = p \<and> p \<notin> set (take i ps)"
proof (induction ps arbitrary: i)
  case Nil
  then show ?case by simp
next
  case (Cons pt pts)
  show ?case
  proof (cases "pt = p")
    case True
    with Cons.prems show ?thesis by (simp add: point_eq_iff)
  next
    case False
    with Cons.prems obtain j where j: "findIndex p pts = Some j" "i = Suc j"
      by (auto simp: point_eq_iff)
    from Cons.IH[OF j(1)] j(2) False show ?thesis by simp
  qed
qed

lemma swap_pop_mset:
  assumes "i < length ps"
  shows "mset (take (length ps - 1) (ps[i := ps ! (length ps - 1)])) = mset ps - {#ps ! i#}"
proof (cases ps rule: rev_cases)
  case Nil
  with assms show ?thesis by simp
next
  case (snoc qs q)
  show ?thesis
  proof (cases "i < length qs")
    case True
    hence "mset (qs[i := q]) = mset qs - {#qs ! i#} + {#q#}"
      by (simp add: mset_update)
    with True snoc show ?thesis by (simp add: list_update_append nth_append)
  next
    case False
    with assms snoc have "i = length qs" by simp
    with snoc show ?thesis by simp
  qed
qed

lemma swap_pop_set:
  "i < length ps \<Longrightarrow> set (take (length ps - 1) (ps[i := ps ! (length ps - 1)])) \<subseteq> set ps"
  by (metis swap_pop_mset in_diffD set_mset_mset subsetI)

lemma mset_remove_right:
  "p \<notin># A \<Longrightarrow> A + (B - {#p#}) = A + B - {#p#}"
  by (auto simp: multiset_eq_iff not_in_iff)

lemma Remove_spec:
  "invar qt \<Longrightarrow> Remove p qt = (r, qt') \<Longrightarrow>
     invar qt' \<and> boundary qt' = boundary qt \<and> capacity qt' = capacity qt \<and>
     (r \<longleftrightarrow> p \<in># allPoints qt) \<and> allPoints qt' = allPoints qt - {#p#}"
proof (induction qt arbitrary: r qt')
  case (Leaf b cap ps)
  show ?case
  proof (cases "Contains b p")
    case False
    with Leaf.prems have "p \<notin> set ps" by auto
    with False Leaf.prems show ?thesis by auto
  next
    case inside: True
    show ?thesis
    proof (cases "findIndex p ps")
      case None
      hence "p \<notin> set ps" by (simp add: findIndex_None)
      with None inside Leaf.prems show ?thesis by auto
    next
      case (Some i)
      from findIndex_Some[OF Some] have i: "i < length ps" "ps ! i = p" by simp_all
      let ?ps' = "take (length ps - 1) (ps[i := ps ! (length ps - 1)])"
      from Some inside Leaf.prems have res: "r" "qt' = Leaf b cap ?ps'" by simp_all
      from i have mem: "p \<in> set ps" by auto
      from swap_pop_mset[OF i(1)] i(2) have m: "mset ?ps' = mset ps - {#p#}" by simp
      from swap_pop_set[OF i(1)] Leaf.prems(1) have "\<forall>q \<in> set ?ps'. Contains b q" by auto
      moreover from Leaf.prems(1) i(1) have "int (length ?ps') \<le> cap" by simp
      ultimately show ?thesis using res mem m Leaf.prems(1) by simp
    qed
  qed
next
  case (Internal b cap ps nw ne sw se)
  note inv = Internal.prems(1)
  from inv have inw: "invar nw" and ine: "invar ne" and isw: "invar sw" and ise: "invar se"
    and emp: "ps = []" and cap: "1 \<le> cap"
    and bs: "boundary nw = nwBoundary b" "boundary ne = neBoundary b"
            "boundary sw = swBoundary b" "boundary se = seBoundary b"
    and cs: "capacity nw = cap" "capacity ne = cap" "capacity sw = cap" "capacity se = cap"
    and old: "\<forall>q. q \<in># allPoints nw + allPoints ne + allPoints sw + allPoints se \<longrightarrow> Contains b q"
    by simp_all
  have shrunk: "invar (Internal b cap ps nw1 ne1 sw1 se1)"
    if "invar nw1 \<and> boundary nw1 = boundary nw \<and> capacity nw1 = capacity nw \<and>
        allPoints nw1 = allPoints nw - A"
       "invar ne1 \<and> boundary ne1 = boundary ne \<and> capacity ne1 = capacity ne \<and>
        allPoints ne1 = allPoints ne - B"
       "invar sw1 \<and> boundary sw1 = boundary sw \<and> capacity sw1 = capacity sw \<and>
        allPoints sw1 = allPoints sw - C"
       "invar se1 \<and> boundary se1 = boundary se \<and> capacity se1 = capacity se \<and>
        allPoints se1 = allPoints se - D"
    for nw1 ne1 sw1 se1 A B C D
  proof -
    have "\<forall>q. q \<in># (allPoints nw - A) + (allPoints ne - B) + (allPoints sw - C) +
                 (allPoints se - D) \<longrightarrow> Contains b q"
      using old by (auto dest: in_diffD)
    with that emp cap bs cs show ?thesis by simp
  qed
  have same: "invar c \<and> boundary c = boundary c \<and> capacity c = capacity c \<and>
              allPoints c = allPoints c - {#}" if "invar c" for c :: "'a QuadTree"
    using that by simp
  show ?case
  proof (cases "Contains b p")
    case False
    with allPoints_in_boundary[OF inv, of p] have "p \<notin># allPoints (Internal b cap ps nw ne sw se)"
      by auto
    with False Internal.prems show ?thesis by auto
  next
    case inside: True
    obtain r1 nw' where c1: "Remove p nw = (r1, nw')" by (cases "Remove p nw")
    obtain r2 ne' where c2: "Remove p ne = (r2, ne')" by (cases "Remove p ne")
    obtain r3 sw' where c3: "Remove p sw = (r3, sw')" by (cases "Remove p sw")
    obtain r4 se' where c4: "Remove p se = (r4, se')" by (cases "Remove p se")
    note h1 = Internal.IH(1)[OF inw c1] and h2 = Internal.IH(2)[OF ine c2]
      and h3 = Internal.IH(3)[OF isw c3] and h4 = Internal.IH(4)[OF ise c4]
    from h1 have k1: "invar nw' \<and> boundary nw' = boundary nw \<and> capacity nw' = capacity nw \<and>
        allPoints nw' = allPoints nw - {#p#}" by simp
    from h2 have k2: "invar ne' \<and> boundary ne' = boundary ne \<and> capacity ne' = capacity ne \<and>
        allPoints ne' = allPoints ne - {#p#}" by simp
    from h3 have k3: "invar sw' \<and> boundary sw' = boundary sw \<and> capacity sw' = capacity sw \<and>
        allPoints sw' = allPoints sw - {#p#}" by simp
    from h4 have k4: "invar se' \<and> boundary se' = boundary se \<and> capacity se' = capacity se \<and>
        allPoints se' = allPoints se - {#p#}" by simp
    show ?thesis
    proof (cases r1)
      case True
      with Internal.prems(2) inside c1 have res: "r" "qt' = Internal b cap ps nw' ne sw se"
        by simp_all
      have "invar qt'" unfolding res(2)
        by (rule shrunk[OF k1 same[OF ine] same[OF isw] same[OF ise]])
      moreover from True h1 res emp
      have "boundary qt' = boundary (Internal b cap ps nw ne sw se) \<and>
            capacity qt' = capacity (Internal b cap ps nw ne sw se) \<and>
            (r \<longleftrightarrow> p \<in># allPoints (Internal b cap ps nw ne sw se)) \<and>
            allPoints qt' = allPoints (Internal b cap ps nw ne sw se) - {#p#}" by simp
      ultimately show ?thesis by blast
    next
      case n1: False
      with h1 have e1: "allPoints nw' = allPoints nw" "p \<notin># allPoints nw" by simp_all
      show ?thesis
      proof (cases r2)
        case True
        with Internal.prems(2) inside c1 c2 n1
        have res: "r" "qt' = Internal b cap ps nw' ne' sw se" by simp_all
        have "invar qt'" unfolding res(2)
          by (rule shrunk[OF k1 k2 same[OF isw] same[OF ise]])
        moreover from True h1 h2 e1 res emp
        have "boundary qt' = boundary (Internal b cap ps nw ne sw se) \<and>
              capacity qt' = capacity (Internal b cap ps nw ne sw se) \<and>
              (r \<longleftrightarrow> p \<in># allPoints (Internal b cap ps nw ne sw se)) \<and>
              allPoints qt' = allPoints (Internal b cap ps nw ne sw se) - {#p#}" by simp
        ultimately show ?thesis by blast
      next
        case n2: False
        with h2 have e2: "allPoints ne' = allPoints ne" "p \<notin># allPoints ne" by simp_all
        show ?thesis
        proof (cases r3)
          case True
          with Internal.prems(2) inside c1 c2 c3 n1 n2
          have res: "r" "qt' = Internal b cap ps nw' ne' sw' se" by simp_all
          have "invar qt'" unfolding res(2)
            by (rule shrunk[OF k1 k2 k3 same[OF ise]])
          moreover from True h1 h2 h3 e1 e2 res emp
          have "boundary qt' = boundary (Internal b cap ps nw ne sw se) \<and>
                capacity qt' = capacity (Internal b cap ps nw ne sw se) \<and>
                (r \<longleftrightarrow> p \<in># allPoints (Internal b cap ps nw ne sw se)) \<and>
                allPoints qt' = allPoints (Internal b cap ps nw ne sw se) - {#p#}" by simp
          ultimately show ?thesis by blast
        next
          case n3: False
          with h3 have e3: "allPoints sw' = allPoints sw" "p \<notin># allPoints sw" by simp_all
          from Internal.prems(2) inside c1 c2 c3 c4 n1 n2 n3
          have res: "r = r4" "qt' = Internal b cap ps nw' ne' sw' se'"
            by (simp_all split: if_splits)
          have "invar qt'" unfolding res(2) by (rule shrunk[OF k1 k2 k3 k4])
          moreover from e1(2) e2(2) e3(2)
          have "p \<notin># allPoints nw + allPoints ne + allPoints sw" by simp
          note mset_remove_right[OF this, of "allPoints se"]
          with h4 e1 e2 e3 res emp
          have "boundary qt' = boundary (Internal b cap ps nw ne sw se) \<and>
                capacity qt' = capacity (Internal b cap ps nw ne sw se) \<and>
                (r \<longleftrightarrow> p \<in># allPoints (Internal b cap ps nw ne sw se)) \<and>
                allPoints qt' = allPoints (Internal b cap ps nw ne sw se) - {#p#}" by simp
          ultimately show ?thesis by blast
        qed
      qed
    qed
  qed
qed

subsection \<open>Query, and the reachable trees\<close>

lemma scanBucket_filter:
  "scanBucket rangeRect ps found = found @ filter (Contains rangeRect) ps"
  by (induction ps arbitrary: found) simp_all

lemma queryRecursive_frame:
  "fst (queryRecursive rangeRect qt found) = qt"
proof (induction qt arbitrary: found)
  case (Leaf b cap ps)
  show ?case by simp
next
  case (Internal b cap ps nw ne sw se)
  obtain nw' f1 where c1: "queryRecursive rangeRect nw found = (nw', f1)"
    by (cases "queryRecursive rangeRect nw found")
  obtain ne' f2 where c2: "queryRecursive rangeRect ne f1 = (ne', f2)"
    by (cases "queryRecursive rangeRect ne f1")
  obtain sw' f3 where c3: "queryRecursive rangeRect sw f2 = (sw', f3)"
    by (cases "queryRecursive rangeRect sw f2")
  obtain se' f4 where c4: "queryRecursive rangeRect se f3 = (se', f4)"
    by (cases "queryRecursive rangeRect se f3")
  from Internal.IH(1)[of found] c1 have "nw' = nw" by simp
  moreover from Internal.IH(2)[of f1] c2 have "ne' = ne" by simp
  moreover from Internal.IH(3)[of f2] c3 have "sw' = sw" by simp
  moreover from Internal.IH(4)[of f3] c4 have "se' = se" by simp
  ultimately show ?case using c1 c2 c3 c4 by simp
qed

lemma pruned_no_match:
  assumes "invar qt" "\<not> Intersects (boundary qt) rangeRect"
  shows "filter_mset (Contains rangeRect) (allPoints qt) = {#}"
proof -
  have "\<not> Contains rangeRect p" if "p \<in># allPoints qt" for p
    using allPoints_in_boundary[OF assms(1) that] assms(2) Contains_Intersects by blast
  thus ?thesis by simp
qed

lemma queryRecursive_found:
  "invar qt \<Longrightarrow>
     \<exists>new. snd (queryRecursive rangeRect qt found) = found @ new \<and>
           mset new = filter_mset (Contains rangeRect) (allPoints qt)"
proof (induction qt arbitrary: found)
  case (Leaf b cap ps)
  show ?case
  proof (cases "Intersects b rangeRect")
    case True
    thus ?thesis by (simp add: scanBucket_filter)
  next
    case False
    with pruned_no_match[OF Leaf.prems, of rangeRect] show ?thesis by simp
  qed
next
  case (Internal b cap ps nw ne sw se)
  note inv = Internal.prems
  from inv have inw: "invar nw" and ine: "invar ne" and isw: "invar sw" and ise: "invar se"
    and emp: "ps = []" by simp_all
  show ?case
  proof (cases "Intersects b rangeRect")
    case False
    with pruned_no_match[OF inv, of rangeRect] show ?thesis by simp
  next
    case True
    obtain nw' f1 where c1: "queryRecursive rangeRect nw found = (nw', f1)"
      by (cases "queryRecursive rangeRect nw found")
    obtain ne' f2 where c2: "queryRecursive rangeRect ne f1 = (ne', f2)"
      by (cases "queryRecursive rangeRect ne f1")
    obtain sw' f3 where c3: "queryRecursive rangeRect sw f2 = (sw', f3)"
      by (cases "queryRecursive rangeRect sw f2")
    obtain se' f4 where c4: "queryRecursive rangeRect se f3 = (se', f4)"
      by (cases "queryRecursive rangeRect se f3")
    from Internal.IH(1)[OF inw, of found] c1 obtain n1 where
      n1: "f1 = found @ n1" "mset n1 = filter_mset (Contains rangeRect) (allPoints nw)" by auto
    from Internal.IH(2)[OF ine, of f1] c2 obtain n2 where
      n2: "f2 = f1 @ n2" "mset n2 = filter_mset (Contains rangeRect) (allPoints ne)" by auto
    from Internal.IH(3)[OF isw, of f2] c3 obtain n3 where
      n3: "f3 = f2 @ n3" "mset n3 = filter_mset (Contains rangeRect) (allPoints sw)" by auto
    from Internal.IH(4)[OF ise, of f3] c4 obtain n4 where
      n4: "f4 = f3 @ n4" "mset n4 = filter_mset (Contains rangeRect) (allPoints se)" by auto
    have "snd (queryRecursive rangeRect (Internal b cap ps nw ne sw se) found) = f4"
      using True c1 c2 c3 c4 by simp
    hence "snd (queryRecursive rangeRect (Internal b cap ps nw ne sw se) found) =
             found @ (n1 @ n2 @ n3 @ n4)"
      using n1(1) n2(1) n3(1) n4(1) by simp
    moreover have "mset (n1 @ n2 @ n3 @ n4) =
        filter_mset (Contains rangeRect) (allPoints (Internal b cap ps nw ne sw se))"
      using n1(2) n2(2) n3(2) n4(2) emp by simp
    ultimately show ?thesis by blast
  qed
qed

lemma Query_mset:
  "invar qt \<Longrightarrow> mset (snd (Query rangeRect qt)) = filter_mset (Contains rangeRect) (allPoints qt)"
  using queryRecursive_found[of qt rangeRect "[]"] by (auto simp: Query_def)

lemma invar_NewQuadTree: "invar (NewQuadTree b cap)"
  by (simp add: NewQuadTree_def)

lemma reachable_invar: "reachable qt \<Longrightarrow> invar qt"
proof (induction rule: reachable.induct)
  case (new b cap)
  show ?case by (rule invar_NewQuadTree)
next
  case (ins qt n p r qt')
  from Insert_result(1)[OF ins.IH ins.hyps(2)] show ?case .
next
  case (rem qt p r qt')
  from Remove_spec[OF rem.IH rem.hyps(2)] show ?case by simp
qed

subsection \<open>Fuel\<close>

text \<open>More fuel does not change the result of a call that returned.\<close>

lemma insertChildren_mono:
  assumes "\<And>p qt x. ins p qt = Some x \<Longrightarrow> ins' p qt = Some x"
    and "insertChildren ins p qt = Some x"
  shows "insertChildren ins' p qt = Some x"
proof (cases qt)
  case (Leaf b cap ps)
  with assms(2) show ?thesis by simp
next
  case (Internal b cap ps nw ne sw se)
  with assms(2) show ?thesis
    by (auto split: option.splits if_splits dest!: assms(1))
qed

lemma redistribute_mono:
  assumes "\<And>p qt x. ins p qt = Some x \<Longrightarrow> ins' p qt = Some x"
  shows "redistribute ins pts qt = Some x \<Longrightarrow> redistribute ins' pts qt = Some x"
proof (induction pts arbitrary: qt)
  case Nil
  then show ?case by simp
next
  case (Cons pt pts)
  from Cons.prems obtain r qt1 where
    s: "insertChildren ins pt qt = Some (r, qt1)" "redistribute ins pts qt1 = Some x"
    by (auto split: option.splits)
  from insertChildren_mono[of ins ins', OF assms s(1)] Cons.IH[OF s(2)]
  show ?case by simp
qed

lemma Insert_fuel_Suc: "Insert n p qt = Some x \<Longrightarrow> Insert (Suc n) p qt = Some x"
proof (induction n arbitrary: p qt x)
  case 0
  then show ?case by simp
next
  case (Suc n)
  note step = Suc.IH
  show ?case
  proof (cases "Contains (boundary qt) p")
    case False
    with Suc.prems show ?thesis by simp
  next
    case inside: True
    show ?thesis
    proof (cases qt)
      case (Internal b cap ps nw ne sw se)
      with Suc.prems inside have "insertChildren (Insert n) p qt = Some x" by simp
      from insertChildren_mono[of "Insert n" "Insert (Suc n)", OF step this]
      show ?thesis using inside Internal by simp
    next
      case (Leaf b cap ps)
      show ?thesis
      proof (cases "int (length (ps @ [p])) > cap")
        case False
        with Suc.prems inside Leaf show ?thesis by (simp add: Let_def)
      next
        case True
        let ?qt1 = "Leaf b cap (ps @ [p])"
        let ?old = "points (subdivide ?qt1)"
        let ?qt3 = "setPoints [] (subdivide ?qt1)"
        from Suc.prems inside Leaf True obtain qt4 where
          r: "redistribute (Insert n) ?old ?qt3 = Some qt4" and x: "x = (True, qt4)"
          by (auto simp: Let_def split: option.splits)
        from redistribute_mono[of "Insert n" "Insert (Suc n)", OF step r]
        have "redistribute (Insert (Suc n)) ?old ?qt3 = Some qt4" .
        with inside Leaf True x show ?thesis by (simp add: Let_def)
      qed
    qed
  qed
qed

lemma Insert_fuel_mono: "Insert n p qt = Some x \<Longrightarrow> n \<le> m \<Longrightarrow> Insert m p qt = Some x"
proof (induction m)
  case 0
  then show ?case by simp
next
  case (Suc m)
  show ?case
  proof (cases "n = Suc m")
    case True
    with Suc.prems(1) show ?thesis by blast
  next
    case False
    with Suc.prems(2) have "n \<le> m" by simp
    from Insert_fuel_Suc[OF Suc.IH[OF Suc.prems(1) this]] show ?thesis .
  qed
qed

subsection \<open>The two scenarios\<close>

lemmas float_eval = fadd_def fsub_def fdiv_def round64_numeral round64_0 round64_binade53
  roundEven_def

lemmas example_defs = world_def p1_def p2_def p3_def p4_def p5_def p6_def edgePoint_def
  searchNE_def bigWorld_def gapA_def gapB_def lapA_def lapB_def
  nwBoundary_def neBoundary_def swBoundary_def seBoundary_def Let_def float_eval

lemma insertAll_reachable:
  "reachable qt \<Longrightarrow> insertAll n ps qt = Some qt' \<Longrightarrow> reachable qt'"
proof (induction ps arbitrary: qt)
  case Nil
  then show ?case by simp
next
  case (Cons p ps)
  from Cons.prems(2) obtain r qt1 where
    s: "Insert n p qt = Some (r, qt1)" "insertAll n ps qt1 = Some qt'"
    by (auto split: option.splits)
  from Cons.IH[OF reachable.ins[OF Cons.prems(1) s(1)] s(2)] show ?case .
qed

lemma tree5_built:
  "insertAll (Suc (Suc 0)) [p1, p2, p3, p4, p5] (NewQuadTree world 2) = Some tree5"
  by (simp add: tree5_def NewQuadTree_def subdivide_def Contains_def example_defs)

lemma reachable_tree5: "reachable tree5"
  using insertAll_reachable[OF reachable.new tree5_built] .

lemma tree2_built: "insertAll (Suc 0) [p1, p2] (NewQuadTree world 2) = Some tree2"
  by (simp add: tree2_def NewQuadTree_def Contains_def example_defs)

lemma reachable_tree2: "reachable tree2"
  using insertAll_reachable[OF reachable.new tree2_built] .

lemma dupTree_built: "insertAll (Suc 0) [p1, p1] (NewQuadTree world 2) = Some dupTree"
  by (simp add: dupTree_def NewQuadTree_def Contains_def example_defs)

lemma reachable_dupTree: "reachable dupTree"
  using insertAll_reachable[OF reachable.new dupTree_built] .

lemma tree3_split: "Insert (Suc (Suc 0)) p3 tree2 = Some (True, tree3)"
  by (simp add: tree2_def tree3_def NewQuadTree_def subdivide_def Contains_def example_defs)

lemma tree6_insert: "Insert (Suc (Suc 0)) p6 tree5 = Some (True, tree6)"
  by (simp add: tree5_def tree6_def Contains_def example_defs)

lemma tree6_remove: "Remove p6 tree6 = (True, tree5)"
  by (simp add: tree5_def tree6_def Contains_def example_defs)


lemma invar_bucketsWithin:
  "invar qt \<Longrightarrow> bucketsWithin (capacity qt) qt"
  by (induction qt) auto

text \<open>The coordinates of the second scenario are \<open>float64\<close> values.\<close>

lemma bigWorld_values_float64:
  "round64 (Boundary.X bigWorld) = Boundary.X bigWorld \<and>
   round64 (Boundary.Y bigWorld) = Boundary.Y bigWorld \<and>
   round64 (Width bigWorld) = Width bigWorld \<and>
   round64 (Height bigWorld) = Height bigWorld \<and>
   round64 (Point.X gapA) = Point.X gapA \<and> round64 (Point.Y gapA) = Point.Y gapA \<and>
   round64 (Point.X gapB) = Point.X gapB \<and> round64 (Point.Y gapB) = Point.Y gapB \<and>
   round64 (Point.X lapA) = Point.X lapA \<and> round64 (Point.Y lapA) = Point.Y lapA \<and>
   round64 (Point.X lapB) = Point.X lapB \<and> round64 (Point.Y lapB) = Point.Y lapB"
  by (simp add: example_defs)















subsection \<open>The claims\<close>

text \<open>
  C1. For every tree built by a finite sequence of insertions and removals and every
  query rectangle, \<open>Query\<close> returns, as a multiset, exactly the stored points that
  satisfy \<open>Contains\<close> of the rectangle: the pruning by \<open>Intersects\<close> skips no leaf that
  holds a matching point.
\<close>

theorem query_returns_stored_matches:
  assumes "reachable qt"
  shows "mset (snd (Query rangeRect qt)) = filter_mset (Contains rangeRect) (allPoints qt)"
  using Query_mset[OF reachable_invar[OF assms]] .

theorem query_returns_stored_matches_witness:
  "mset (snd (Query searchNE tree5)) = {#p2, p5#}"
proof -
  have "filter_mset (Contains searchNE) (allPoints tree5) = {#p2, p5#}"
    by (simp add: tree5_def Contains_def example_defs)
  with query_returns_stored_matches[OF reachable_tree5, of searchNE] show ?thesis by simp
qed

text \<open>
  C9. \<open>Query\<close> does not change the tree: the tree it leaves behind (structure,
  rectangles, capacities and buckets) is the tree it was called on.
\<close>

theorem query_leaves_tree_unchanged: "fst (Query rangeRect qt) = qt"
  by (simp add: Query_def queryRecursive_frame)

text \<open>
  C5. After a completed \<open>Insert\<close> on a reachable tree, every leaf bucket has at most
  capacity points and every parent bucket is empty.
\<close>

theorem insert_keeps_buckets_within_capacity:
  assumes "reachable qt" and "Insert n p qt = Some (r, qt')"
  shows "bucketsWithin (capacity qt) qt' \<and> capacity qt' = capacity qt"
proof -
  note s = Insert_result[OF reachable_invar[OF assms(1)] assms(2)]
  from invar_bucketsWithin[OF s(1)] s(3) show ?thesis by simp
qed

theorem insert_keeps_buckets_within_capacity_witness:
  "bucketsWithin 2 tree3 \<and> capacity tree3 = 2"
  using insert_keeps_buckets_within_capacity[OF reachable_tree2 tree3_split]
  by (simp add: tree2_def)

text \<open>
  C6. On a reachable tree \<open>Remove p\<close> returns true exactly when a stored entry equals
  \<open>p\<close> in both coordinates and in the payload, and then one such entry is gone;
  otherwise it returns false and the stored points stay. After a successful removal
  of the only entry equal to \<open>p\<close>, a second \<open>Remove p\<close> returns false.
\<close>

theorem remove_result:
  assumes "reachable qt" and "Remove p qt = (r, qt')"
  shows "(r \<longleftrightarrow> (\<exists>q. q \<in># allPoints qt \<and> Point.X q = Point.X p \<and> Point.Y q = Point.Y p \<and>
                    Data q = Data p)) \<and>
         allPoints qt' = allPoints qt - {#p#} \<and>
         (r \<and> count (allPoints qt) p = 1 \<longrightarrow> \<not> fst (Remove p qt'))"
proof -
  note s = Remove_spec[OF reachable_invar[OF assms(1)] assms(2)]
  have "(\<exists>q. q \<in># allPoints qt \<and> Point.X q = Point.X p \<and> Point.Y q = Point.Y p \<and> Data q = Data p)
          \<longleftrightarrow> p \<in># allPoints qt"
    using point_eq_iff[of _ p] by metis
  moreover have "\<not> fst (Remove p qt')" if "count (allPoints qt) p = 1"
  proof -
    from that s have "p \<notin># allPoints qt'" by (simp add: not_in_iff)
    moreover obtain r2 qt2 where again: "Remove p qt' = (r2, qt2)" by (cases "Remove p qt'")
    ultimately show ?thesis using Remove_spec[of qt' p r2 qt2] s by simp
  qed
  ultimately show ?thesis using s by simp
qed

theorem remove_result_witness:
  "Remove p6 tree6 = (True, tree5) \<and> allPoints tree5 = allPoints tree6 - {#p6#} \<and>
   \<not> fst (Remove p6 tree5)"
proof -
  have "reachable tree6" by (rule reachable.ins[OF reachable_tree5 tree6_insert])
  from remove_result[OF this tree6_remove]
  have "allPoints tree5 = allPoints tree6 - {#p6#}"
    and "count (allPoints tree6) p6 = 1 \<longrightarrow> \<not> fst (Remove p6 tree5)"
    by simp_all
  moreover have "count (allPoints tree6) p6 = 1"
    by (simp add: tree6_def p6_def example_defs)
  ultimately show ?thesis using tree6_remove by simp
qed

text \<open>
  C7. If \<open>p\<close> is inserted into a reachable tree that stores no point equal to \<open>p\<close>
  and is then removed, a query of the whole world rectangle does not return \<open>p\<close>.
\<close>

theorem insert_then_remove_not_found:
  assumes "reachable qt" and "p \<notin># allPoints qt"
    and "Insert n p qt = Some (r1, qt1)" and "Remove p qt1 = (r2, qt2)"
  shows "p \<notin> set (snd (Query (boundary qt) qt2))"
proof -
  note i = Insert_result[OF reachable_invar[OF assms(1)] assms(3)]
  note d = Remove_spec[OF i(1) assms(4)]
  from mset_subset_eq_count[OF i(6), of p] assms(2)
  have "count (allPoints qt1) p \<le> 1" by (simp add: not_in_iff)
  with d have "count (allPoints qt2) p = 0" by simp
  hence "p \<notin># allPoints qt2" by (simp add: not_in_iff)
  hence "p \<notin># filter_mset (Contains (boundary qt)) (allPoints qt2)" by simp
  with Query_mset[of qt2 "boundary qt"] d
  have "p \<notin># mset (snd (Query (boundary qt) qt2))" by simp
  thus ?thesis by simp
qed

theorem insert_then_remove_not_found_witness:
  "p6 \<notin> set (snd (Query world tree5))"
proof -
  have "p6 \<notin># allPoints tree5" by (simp add: tree5_def p6_def p1_def p2_def p3_def p4_def p5_def)
  from insert_then_remove_not_found[OF reachable_tree5 this tree6_insert tree6_remove]
  show ?thesis by (simp add: tree5_def)
qed

text \<open>
  C10. One call of \<open>Remove\<close> takes out one entry: when a reachable tree stores
  \<open>k \<ge> 1\<close> entries equal to \<open>p\<close>, \<open>Remove p\<close> returns true, \<open>k - 1\<close> entries equal
  to \<open>p\<close> stay, and every other entry stays as often as it was stored.
\<close>

theorem remove_takes_one_entry:
  assumes "reachable qt" and "count (allPoints qt) p = k" and "1 \<le> k"
    and "Remove p qt = (r, qt')"
  shows "r \<and> count (allPoints qt') p = k - 1 \<and>
         (\<forall>q. q \<noteq> p \<longrightarrow> count (allPoints qt') q = count (allPoints qt) q)"
proof -
  note s = Remove_spec[OF reachable_invar[OF assms(1)] assms(4)]
  from assms(2,3) have "p \<in># allPoints qt" by (simp add: count_greater_zero_iff[symmetric] del: count_greater_zero_iff)
  with s assms(2) show ?thesis by simp
qed

theorem remove_takes_one_entry_witness:
  "Remove p1 dupTree = (True, Leaf world 2 [p1]) \<and>
   count (allPoints (Leaf world 2 [p1])) p1 = 1"
proof -
  have c: "count (allPoints dupTree) p1 = 2" by (simp add: dupTree_def)
  have r: "Remove p1 dupTree = (True, Leaf world 2 [p1])"
    by (simp add: dupTree_def Contains_def example_defs)
  from remove_takes_one_entry[OF reachable_dupTree c _ r] r show ?thesis by simp
qed

text \<open>
  C8. \<open>Intersects a b\<close> holds exactly when none of the four separating conditions
  holds between the edges as the code computes them; two rectangles that share only
  an edge do not intersect; and two rectangles that contain a common point intersect.
\<close>

theorem intersects_half_open:
  "(Intersects a b \<longleftrightarrow>
      \<not> (fadd (Boundary.X a) (Width a) \<le> fsub (Boundary.X b) (Width b) \<or>
         fadd (Boundary.X b) (Width b) \<le> fsub (Boundary.X a) (Width a) \<or>
         fadd (Boundary.Y a) (Height a) \<le> fsub (Boundary.Y b) (Height b) \<or>
         fadd (Boundary.Y b) (Height b) \<le> fsub (Boundary.Y a) (Height a))) \<and>
   (fadd (Boundary.X a) (Width a) = fsub (Boundary.X b) (Width b) \<or>
    fadd (Boundary.X b) (Width b) = fsub (Boundary.X a) (Width a) \<or>
    fadd (Boundary.Y a) (Height a) = fsub (Boundary.Y b) (Height b) \<or>
    fadd (Boundary.Y b) (Height b) = fsub (Boundary.Y a) (Height a) \<longrightarrow> \<not> Intersects a b) \<and>
   (Contains a p \<and> Contains b p \<longrightarrow> Intersects a b)"
proof (intro conjI)
  show "Intersects a b \<longleftrightarrow>
      \<not> (fadd (Boundary.X a) (Width a) \<le> fsub (Boundary.X b) (Width b) \<or>
         fadd (Boundary.X b) (Width b) \<le> fsub (Boundary.X a) (Width a) \<or>
         fadd (Boundary.Y a) (Height a) \<le> fsub (Boundary.Y b) (Height b) \<or>
         fadd (Boundary.Y b) (Height b) \<le> fsub (Boundary.Y a) (Height a))"
    by (auto simp: Intersects_def Let_def)
  show "fadd (Boundary.X a) (Width a) = fsub (Boundary.X b) (Width b) \<or>
    fadd (Boundary.X b) (Width b) = fsub (Boundary.X a) (Width a) \<or>
    fadd (Boundary.Y a) (Height a) = fsub (Boundary.Y b) (Height b) \<or>
    fadd (Boundary.Y b) (Height b) = fsub (Boundary.Y a) (Height a) \<longrightarrow> \<not> Intersects a b"
    by (auto simp: Intersects_def Let_def)
  show "Contains a p \<and> Contains b p \<longrightarrow> Intersects a b"
    using Contains_Intersects by blast
qed

theorem intersects_half_open_witness:
  "\<not> Intersects (nwBoundary world) (neBoundary world) \<and>
   Contains world p2 \<and> Contains searchNE p2 \<and> Intersects world searchNE"
proof -
  have adj: "fadd (Boundary.X (nwBoundary world)) (Width (nwBoundary world)) =
             fsub (Boundary.X (neBoundary world)) (Width (neBoundary world))"
    by (simp add: example_defs)
  have both: "Contains world p2 \<and> Contains searchNE p2"
    by (simp add: Contains_def example_defs)
  from intersects_half_open[of "nwBoundary world" "neBoundary world" p2] adj
       intersects_half_open[of world searchNE p2] both
  show ?thesis by blast
qed




text \<open>
  C3. The claim is that some point satisfies a node's \<open>Contains\<close> while lying on the
  node's upper edge, and is then lost when the node subdivides. There is no such
  point: \<open>Contains\<close> is strict at the upper edges, whether the edge is read as the
  sum that the code computes or as the exact sum met by a \<open>float64\<close> coordinate.
\<close>

theorem upper_edge_point_counterexample:
  "\<not> (\<exists>(qt :: 'd QuadTree) (p :: 'd Point).
        Contains (boundary qt) p \<and>
        (Point.X p = fadd (Boundary.X (boundary qt)) (Width (boundary qt)) \<or>
         Point.Y p = fadd (Boundary.Y (boundary qt)) (Height (boundary qt)) \<or>
         round64 (Point.X p) = Point.X p \<and>
           Point.X p = Boundary.X (boundary qt) + Width (boundary qt) \<or>
         round64 (Point.Y p) = Point.Y p \<and>
           Point.Y p = Boundary.Y (boundary qt) + Height (boundary qt)))"
  using upper_edge_outside exact_upper_edge_outside by blast

text \<open>
  C3, amended. A point on a node's upper edge (\<open>x = cx + hw\<close> or \<open>y = cy + hh\<close>)
  does not satisfy the node's \<open>Contains\<close>: \<open>Insert\<close> at that node returns false for
  it and leaves the node as it is.
\<close>

theorem upper_edge_point_rejected:
  "Point.X p = fadd (Boundary.X (boundary qt)) (Width (boundary qt)) \<or>
   Point.Y p = fadd (Boundary.Y (boundary qt)) (Height (boundary qt)) \<or>
   round64 (Point.X p) = Point.X p \<and>
     Point.X p = Boundary.X (boundary qt) + Width (boundary qt) \<or>
   round64 (Point.Y p) = Point.Y p \<and>
     Point.Y p = Boundary.Y (boundary qt) + Height (boundary qt) \<longrightarrow>
     \<not> Contains (boundary qt) p \<and> Insert (Suc n) p qt = Some (False, qt)"
proof
  assume "Point.X p = fadd (Boundary.X (boundary qt)) (Width (boundary qt)) \<or>
   Point.Y p = fadd (Boundary.Y (boundary qt)) (Height (boundary qt)) \<or>
   round64 (Point.X p) = Point.X p \<and>
     Point.X p = Boundary.X (boundary qt) + Width (boundary qt) \<or>
   round64 (Point.Y p) = Point.Y p \<and>
     Point.Y p = Boundary.Y (boundary qt) + Height (boundary qt)"
  hence "\<not> Contains (boundary qt) p"
    using upper_edge_outside exact_upper_edge_outside by blast
  thus "\<not> Contains (boundary qt) p \<and> Insert (Suc n) p qt = Some (False, qt)" by simp
qed

theorem upper_edge_point_rejected_witness:
  "Point.X edgePoint = Boundary.X (boundary tree2) + Width (boundary tree2) \<and>
   \<not> Contains (boundary tree2) edgePoint \<and>
   Insert (Suc 0) edgePoint tree2 = Some (False, tree2)"
proof -
  have a: "round64 (Point.X edgePoint) = Point.X edgePoint \<and>
           Point.X edgePoint = Boundary.X (boundary tree2) + Width (boundary tree2)"
    by (simp add: tree2_def example_defs)
  with upper_edge_point_rejected[of edgePoint tree2 0] show ?thesis by blast
qed




end
